theory Spec2Isabelle
  imports Main "HOL-Library.Word" "HOL-Library.Signed_Division"
begin

section \<open>The drone's flight over the field (app.go)\<close>

text \<open>
  Go's \<open>int\<close> is the 64-bit two's complement integer of the usual platforms: a
  \<open>64 word\<close>, on which \<open>+\<close>, \<open>-\<close> and \<open>*\<close> wrap around as Go's do, compared
  as a signed number (\<open>\<le>s\<close>, \<open><s\<close>) and read as an integer by \<open>sint\<close>.  Go's
  \<open>/\<close> and \<open>%\<close> truncate towards zero, which is \<open>sdiv\<close> and \<open>smod\<close> on the
  integers read (\<open>goQuo\<close>, \<open>goRem\<close>); the program divides by 2 only, so Go's panic
  on a zero divisor has no part in it.  The field's length is written \<open>len\<close>, since
  \<open>length\<close> is the length of a list in HOL.
\<close>

type_synonym goInt = "64 word"

definition maxInt :: goInt where
  "maxInt = 9223372036854775807"

definition goQuo :: "goInt \<Rightarrow> goInt \<Rightarrow> goInt" where
  "goQuo a b = word_of_int (sint a sdiv sint b)"

definition goRem :: "goInt \<Rightarrow> goInt \<Rightarrow> goInt" where
  "goRem a b = word_of_int (sint a smod sint b)"

subsection \<open>absInt\<close>

definition absInt :: "goInt \<Rightarrow> goInt" where
  "absInt input = (if input <s 0 then - input else input)"

subsection \<open>calculateHorizontalDistance\<close>

definition calculateHorizontalDistance :: "goInt \<Rightarrow> goInt \<Rightarrow> goInt" where
  "calculateHorizontalDistance len width =
     (if width = 1 then len - 1
      else
        let northSteps = goQuo width 2;
            northSteps = (if goRem width 2 \<noteq> 0 then northSteps + 1 else northSteps)
        in (len - 1) * width + northSteps)"

subsection \<open>getNextPlotCoordinate\<close>

definition getNextPlotCoordinate :: "goInt \<Rightarrow> goInt \<Rightarrow> goInt \<Rightarrow> goInt \<times> goInt" where
  "getNextPlotCoordinate len x y =
     (if x = 1 then
        (if goRem y 2 = 0 then (x, y + 1) else (x + 1, y))
      else if x = len then
        (if goRem y 2 = 0 then (x - 1, y) else (x, y + 1))
      else if goRem y 2 = 0 then (x - 1, y)
      else (x + 1, y))"

subsection \<open>generateTreeKey\<close>

text \<open>
  \<open>fmt.Sprintf("%d,%d", x, y)\<close>: each number in decimal, without leading zeros, with a
  minus sign in front of a negative one, and a comma between the two.
\<close>

definition digitChar :: "nat \<Rightarrow> char" where
  "digitChar d = ''0123456789'' ! d"

function natDigits :: "nat \<Rightarrow> string" where
  "natDigits n =
     (if n < 10 then [digitChar n] else natDigits (n div 10) @ [digitChar (n mod 10)])"
  by pat_completeness auto
termination
  by (relation "measure id") auto

declare natDigits.simps [simp del]

definition formatInt :: "int \<Rightarrow> string" where
  "formatInt i = (if i < 0 then CHR ''-'' # natDigits (nat (- i)) else natDigits (nat i))"

definition generateTreeKey :: "goInt \<Rightarrow> goInt \<Rightarrow> string" where
  "generateTreeKey x y = formatInt (sint x) @ '','' @ formatInt (sint y)"

subsection \<open>calculateFlyDistance\<close>

text \<open>
  The loop \<open>for x <= length && y <= width\<close> with its four variables \<open>x\<close>, \<open>y\<close>,
  \<open>currentAltitude\<close> and \<open>distance\<close>.  Nothing in the loop itself bounds the number
  of rounds, so a run that never leaves the loop is the value \<open>None\<close>.
\<close>

partial_function (option) flyLoop ::
  "goInt \<Rightarrow> goInt \<Rightarrow> (string \<rightharpoonup> goInt) \<Rightarrow> goInt \<Rightarrow> goInt \<Rightarrow> goInt \<Rightarrow> goInt \<Rightarrow> goInt option"
  where
  "flyLoop len width treeMap x y currentAltitude distance =
     (if x \<le>s len \<and> y \<le>s width then
        (case getNextPlotCoordinate len x y of
           (x1, y1) \<Rightarrow>
             (case treeMap (generateTreeKey x1 y1) of
                None \<Rightarrow>
                  (if currentAltitude \<noteq> 1 then
                     flyLoop len width treeMap x1 y1 1
                       (distance + absInt (currentAltitude - 1))
                   else flyLoop len width treeMap x1 y1 currentAltitude distance)
              | Some treeHeight \<Rightarrow>
                  flyLoop len width treeMap x1 y1 (treeHeight + 1)
                    (distance + absInt (treeHeight + 1 - currentAltitude))))
      else Some distance)"

declare flyLoop.simps [code]

definition calculateFlyDistance :: "goInt \<Rightarrow> goInt \<Rightarrow> (string \<rightharpoonup> goInt) \<Rightarrow> goInt option" where
  "calculateFlyDistance len width treeMap =
     flyLoop len width treeMap 1 1 1 (1 + calculateHorizontalDistance len width * 10 + 1)"

subsection \<open>The traversal as a sequence of plots\<close>

text \<open>
  One round of the loop moves the drone by \<open>getNextPlotCoordinate\<close>.  \<open>plotAfter len k\<close>
  is the plot reached from \<open>(1, 1)\<close> after \<open>k\<close> moves, and \<open>traversal len width\<close>
  lists the start and the plots of the first \<open>len * width - 1\<close> moves.  The traversal
  enumerates the field if it holds each plot of the field once and nothing else.
\<close>

definition stepPlot :: "goInt \<Rightarrow> goInt \<times> goInt \<Rightarrow> goInt \<times> goInt" where
  "stepPlot len p = getNextPlotCoordinate len (fst p) (snd p)"

definition plotAfter :: "goInt \<Rightarrow> nat \<Rightarrow> goInt \<times> goInt" where
  "plotAfter len k = (stepPlot len ^^ k) (1, 1)"

definition traversal :: "goInt \<Rightarrow> goInt \<Rightarrow> (goInt \<times> goInt) list" where
  "traversal len width = map (plotAfter len) [0..<nat (sint len * sint width)]"

definition enumeratesField :: "goInt \<Rightarrow> goInt \<Rightarrow> bool" where
  "enumeratesField len width \<longleftrightarrow>
     distinct (traversal len width) \<and>
     set (traversal len width) = {(x, y). 1 \<le>s x \<and> x \<le>s len \<and> 1 \<le>s y \<and> y \<le>s width}"

subsection \<open>The accumulator as the specification words it\<close>

text \<open>
  The reference algorithm of the specification (section 4.3), over an obstacle table keyed
  by the coordinate pair itself: advance by the coordinate stepper, look the new plot up,
  descend to altitude 1 over a free plot, fly one unit above a tree, and charge the
  absolute change of altitude.  \<open>magnitude v\<close> is the specification's \<open>|v|\<close>, the
  absolute value of the integer, as a Go \<open>int\<close>.
\<close>

definition magnitude :: "goInt \<Rightarrow> goInt" where
  "magnitude v = word_of_int \<bar>sint v\<bar>"

partial_function (option) specLoop ::
  "goInt \<Rightarrow> goInt \<Rightarrow> (goInt \<times> goInt \<rightharpoonup> goInt) \<Rightarrow> goInt \<times> goInt \<Rightarrow> goInt \<Rightarrow> goInt
     \<Rightarrow> goInt option" where
  "specLoop len width table p currentAltitude distance =
     (if fst p \<le>s len \<and> snd p \<le>s width then
        (let p' = getNextPlotCoordinate len (fst p) (snd p) in
           (case table p' of
              None \<Rightarrow>
                (if currentAltitude \<noteq> 1 then
                   specLoop len width table p' 1 (distance + magnitude (currentAltitude - 1))
                 else specLoop len width table p' currentAltitude distance)
            | Some h \<Rightarrow>
                (let required = h + 1 in
                   specLoop len width table p' required
                     (distance + magnitude (required - currentAltitude)))))
      else Some distance)"

declare specLoop.simps [code]

definition specFlyDistance ::
  "goInt \<Rightarrow> goInt \<Rightarrow> (goInt \<times> goInt \<rightharpoonup> goInt) \<Rightarrow> goInt option" where
  "specFlyDistance len width table =
     specLoop len width table (1, 1) 1 (1 + 10 * calculateHorizontalDistance len width + 1)"

definition tableOf :: "(string \<rightharpoonup> goInt) \<Rightarrow> (goInt \<times> goInt \<rightharpoonup> goInt)" where
  "tableOf treeMap p = treeMap (generateTreeKey (fst p) (snd p))"

subsection \<open>Start\<close>

text \<open>
  \<open>UtilProvider.Scanln\<close> is an interface; its implementation is whatever the caller
  supplies.  Every call of \<open>Start\<close> passes three variables holding 0, so a provider is
  described by the three values it leaves there at its \<open>k\<close>-th call.  \<open>scanLines\<close> is
  the provider that hands out the lines of a finite input and leaves the zeros once the
  input is used up.

  A run of \<open>Start\<close> is observed through what it prints to standard output, what it
  prints to standard error, the status passed to \<open>osExit\<close> (if it was called) and the
  number of \<open>Scanln\<close> calls made.
\<close>

type_synonym scanner = "nat \<Rightarrow> goInt \<times> goInt \<times> goInt"

definition scanLines :: "(goInt \<times> goInt \<times> goInt) list \<Rightarrow> scanner" where
  "scanLines ls k = (if k < length ls then ls ! k else (0, 0, 0))"

record run =
  stdout :: "goInt list"
  stderr :: "string list"
  exitStatus :: "int option"
  scans :: nat

definition validateInitialInputs :: "goInt \<Rightarrow> goInt \<Rightarrow> goInt \<Rightarrow> bool" where
  "validateInitialInputs len width count \<longleftrightarrow>
     1 \<le>s width \<and> width \<le>s 50000 \<and>
     1 \<le>s len \<and> len \<le>s 50000 \<and>
     1 \<le>s count \<and> count \<le>s 50000"

definition throwFail :: "run \<Rightarrow> run" where
  "throwFail r = r\<lparr>stderr := stderr r @ [''FAIL''], exitStatus := Some 1\<rparr>"

text \<open>
  The loop \<open>for i := 0; i < count; i++\<close> that reads the trees; \<open>n\<close> counts the
  \<open>Scanln\<close> calls made so far.  The result is the number of calls made and the tree
  map, or \<open>None\<close> in its place when a height was rejected.
\<close>

function readTrees ::
  "scanner \<Rightarrow> goInt \<Rightarrow> goInt \<Rightarrow> nat \<Rightarrow> (string \<rightharpoonup> goInt)
     \<Rightarrow> nat \<times> (string \<rightharpoonup> goInt) option" where
  "readTrees scan count i n treeMap =
     (if i <s count then
        (case scan n of
           (x, y, height) \<Rightarrow>
             if height <s 1 \<or> 30 <s height then (Suc n, None)
             else readTrees scan count (i + 1) (Suc n)
                    (treeMap(generateTreeKey x y \<mapsto> height)))
      else (n, Some treeMap))"
  by pat_completeness auto
termination
proof (relation "measure (\<lambda>(scan, count, i, n, treeMap). nat (sint count - sint i))")
  fix scan :: scanner and count i :: goInt and n :: nat and treeMap :: "string \<rightharpoonup> goInt"
  assume "i <s count"
  then have less: "sint i < sint count" by (simp add: word_sless_alt)
  moreover have "sint count < 9223372036854775808"
    using sint_lt [of count] by simp
  moreover have "- 9223372036854775808 \<le> sint i"
    using sint_ge [of i] by simp
  ultimately have "sint (i + 1) = sint i + 1"
    by (simp add: sint_word_ariths signed_take_bit_int_eq_self)
  with less show "((scan, count, i + 1, Suc n, treeMap(generateTreeKey x y \<mapsto> height)),
             scan, count, i, n, treeMap)
          \<in> measure (\<lambda>(scan, count, i, n, treeMap). nat (sint count - sint i))"
    for x y height
    by simp
qed simp

declare readTrees.simps [simp del]

definition Start :: "scanner \<Rightarrow> run option" where
  "Start scan =
     (case scan 0 of
        (len, width, count) \<Rightarrow>
          if \<not> validateInitialInputs len width count then
            Some (throwFail \<lparr>stdout = [], stderr = [], exitStatus = None, scans = 1\<rparr>)
          else
            (case readTrees scan count 0 1 Map.empty of
               (n, None) \<Rightarrow>
                 Some (throwFail \<lparr>stdout = [], stderr = [], exitStatus = None, scans = n\<rparr>)
             | (n, Some treeMap) \<Rightarrow>
                 (case calculateFlyDistance len width treeMap of
                    None \<Rightarrow> None
                  | Some distance \<Rightarrow>
                      Some \<lparr>stdout = [distance], stderr = [], exitStatus = None,
                            scans = n\<rparr>)))"

subsection \<open>The sweep on the integers\<close>

text \<open>
  What the stepper does to the integers that its arguments stand for, as long as no
  coordinate leaves the 64-bit range; the order in which the states of the loop shrink in
  a field at least two plots long (towards the last row and, within a row, towards the
  edge where the row ends); and the sweep in closed form: counting its plots from 0, row
  by row, the plot with number \<open>k\<close> lies in row \<open>k div len + 1\<close>, and the rows with an
  odd number run eastwards, the others westwards.  \<open>indexOf\<close> gives the number of a
  plot.  These serve the proofs only.
\<close>

definition sweepStep :: "int \<Rightarrow> int \<times> int \<Rightarrow> int \<times> int" where
  "sweepStep len p =
     (if even (snd p) then (if fst p = 1 then (fst p, snd p + 1) else (fst p - 1, snd p))
      else (if fst p = 1 then (fst p + 1, snd p)
            else if fst p = len then (fst p, snd p + 1)
            else (fst p + 1, snd p)))"

definition remaining :: "goInt \<Rightarrow> goInt \<Rightarrow> ((goInt \<times> goInt) \<times> (goInt \<times> goInt)) set" where
  "remaining len width =
     measures [\<lambda>p. nat (sint width + 1 - sint (snd p)),
               \<lambda>p. nat (if even (sint (snd p)) then sint (fst p) - 1
                          else sint len - sint (fst p))]"

definition plotAt :: "int \<Rightarrow> int \<Rightarrow> int \<times> int" where
  "plotAt len k =
     (let r = k div len; c = k mod len
      in (if even r then c + 1 else len - c, r + 1))"

definition indexOf :: "int \<Rightarrow> int \<times> int \<Rightarrow> int" where
  "indexOf len p =
     (snd p - 1) * len + (if odd (snd p) then fst p - 1 else len - fst p)"

section \<open>Properties\<close>

subsection \<open>Go's integers read as integers\<close>

lemma sint_bounds:
  "- 9223372036854775808 \<le> sint (x::goInt)" "sint (x::goInt) < 9223372036854775808"
  using sint_ge [of x] sint_lt [of x] by simp_all

lemma sint_maxInt: "sint maxInt = 9223372036854775807"
  by (simp add: maxInt_def)

lemma sint_eq_iff: "sint (a::goInt) = sint b \<longleftrightarrow> a = b"
  by (auto intro: signed_word_eqI)

lemma sint_eq_1_iff: "sint (a::goInt) = 1 \<longleftrightarrow> a = 1"
  using sint_eq_iff [of a 1] by simp

lemma sint_of_int:
  "- 9223372036854775808 \<le> k \<Longrightarrow> k < 9223372036854775808
     \<Longrightarrow> sint (word_of_int k :: goInt) = k"
  by (simp add: sint_sbintrunc' signed_take_bit_int_eq_self)

lemma sint_succ: "sint (y::goInt) < 9223372036854775807 \<Longrightarrow> sint (y + 1) = sint y + 1"
  using sint_bounds [of y] by (simp add: sint_word_ariths signed_take_bit_int_eq_self)

lemma sint_pred: "- 9223372036854775808 < sint (y::goInt) \<Longrightarrow> sint (y - 1) = sint y - 1"
  using sint_bounds [of y] by (simp add: sint_word_ariths signed_take_bit_int_eq_self)

lemma smod2_zero_iff: "(k::int) smod 2 = 0 \<longleftrightarrow> even k"
proof -
  have "\<bar>k\<bar> mod 2 = 0 \<longleftrightarrow> even k" by presburger
  moreover have "k = 0 \<Longrightarrow> even k" by simp
  ultimately show ?thesis
    by (auto simp: signed_modulo_int_def sgn_if)
qed

lemma goRem2_zero_iff: "goRem y 2 = 0 \<longleftrightarrow> even (sint y)"
proof -
  have r: "- 1 \<le> sint y smod 2" "sint y smod 2 \<le> 1"
    using smod_int_range [where a = "sint y" and b = 2] by simp_all
  have "(word_of_int (sint y smod 2) :: goInt) = 0 \<longleftrightarrow> sint y smod 2 = 0"
  proof
    assume "(word_of_int (sint y smod 2) :: goInt) = 0"
    then have "sint (word_of_int (sint y smod 2) :: goInt) = 0" by simp
    moreover have "sint (word_of_int (sint y smod 2) :: goInt) = sint y smod 2"
      using r by (intro sint_of_int) simp_all
    ultimately show "sint y smod 2 = 0" by simp
  qed simp
  then show ?thesis by (simp add: goRem_def smod2_zero_iff)
qed

lemma goQuo2: "0 \<le> sint w \<Longrightarrow> sint (goQuo w 2) = sint w div 2"
proof -
  assume w: "0 \<le> sint w"
  then have "sint w sdiv 2 = sint w div 2"
    by (simp add: signed_divide_int_def sgn_if)
  moreover have "0 \<le> sint w div 2" "sint w div 2 < 9223372036854775808"
    using w sint_bounds [of w] by simp_all
  ultimately show ?thesis
    by (simp add: goQuo_def sint_of_int)
qed

subsection \<open>The coordinate stepper\<close>

lemma next_cases:
  "getNextPlotCoordinate len x y =
     (if even (sint y) then (if x = 1 then (x, y + 1) else (x - 1, y))
      else (if x = 1 then (x + 1, y) else if x = len then (x, y + 1) else (x + 1, y)))"
  by (simp add: getNextPlotCoordinate_def goRem2_zero_iff)

text \<open>
  C3.  For \<open>x, y \<ge> 1\<close>, \<open>len \<ge> 1\<close> and \<open>x \<le> len\<close>, the stepper returns: at
  \<open>x = 1\<close>, \<open>(x, y + 1)\<close> for even \<open>y\<close> and \<open>(x + 1, y)\<close> for odd \<open>y\<close>; otherwise
  at \<open>x = len\<close>, \<open>(x - 1, y)\<close> for even \<open>y\<close> and \<open>(x, y + 1)\<close> for odd \<open>y\<close>;
  otherwise \<open>(x - 1, y)\<close> for even \<open>y\<close> and \<open>(x + 1, y)\<close> for odd \<open>y\<close>, where
  \<open>+\<close> and \<open>-\<close> are Go's.  The six values listed for a field of length 4 are as
  stated.
\<close>

theorem getNextPlotCoordinate_rule:
  "(1 \<le>s x \<and> 1 \<le>s y \<and> 1 \<le>s len \<and> x \<le>s len \<longrightarrow>
      getNextPlotCoordinate len x y =
        (if x = 1 then (if even (sint y) then (x, y + 1) else (x + 1, y))
         else if x = len then (if even (sint y) then (x - 1, y) else (x, y + 1))
         else (if even (sint y) then (x - 1, y) else (x + 1, y))))
   \<and> getNextPlotCoordinate 4 1 1 = (2, 1)
   \<and> getNextPlotCoordinate 4 1 2 = (1, 3)
   \<and> getNextPlotCoordinate 4 4 1 = (4, 2)
   \<and> getNextPlotCoordinate 4 4 2 = (3, 2)
   \<and> getNextPlotCoordinate 4 2 2 = (1, 2)
   \<and> getNextPlotCoordinate 4 2 1 = (3, 1)"
  by (simp add: next_cases)

theorem getNextPlotCoordinate_rule_witness:
  "(1::goInt) \<le>s 4 \<and> (1::goInt) \<le>s 2 \<and> (1::goInt) \<le>s 4 \<and> (4::goInt) \<le>s 4
   \<and> getNextPlotCoordinate 4 4 2 = (4 - 1, 2)"
  using getNextPlotCoordinate_rule [of 4 2 4] by (simp add: word_sle_eq)

subsection \<open>The horizontal distance\<close>

lemma northSteps_ceiling:
  assumes "0 \<le> sint width"
  shows "sint (goQuo width 2 + (if odd (sint width) then 1 else 0)) = (sint width + 1) div 2"
proof (cases "odd (sint width)")
  case True
  have "sint (goQuo width 2) < 9223372036854775807"
    using sint_bounds [of width] by (simp add: goQuo2 [OF assms])
  from sint_succ [OF this] have "sint (goQuo width 2 + 1) = sint width div 2 + 1"
    by (simp add: goQuo2 [OF assms])
  also from True have "\<dots> = (sint width + 1) div 2" by presburger
  finally show ?thesis using True by simp
next
  case False
  then have "sint width div 2 = (sint width + 1) div 2" by presburger
  with False show ?thesis by (simp add: goQuo2 [OF assms])
qed

text \<open>
  C4.  For every \<open>len \<ge> 1\<close>, \<open>calculateHorizontalDistance len 1 = len - 1\<close>, and for
  every \<open>width \<ge> 2\<close> the result is \<open>(len - 1) * width + northSteps\<close> in Go's
  arithmetic, where \<open>northSteps\<close> is Go's \<open>width / 2\<close>, plus 1 if \<open>width\<close> is odd,
  which is the integer \<open>width / 2\<close> rounded up.  In particular the values at (5,1),
  (5,2) and (5,3) are 4, 9 and 14.
\<close>

theorem calculateHorizontalDistance_closed_form:
  "(1 \<le>s len \<longrightarrow> calculateHorizontalDistance len 1 = len - 1)
   \<and> (1 \<le>s len \<and> 2 \<le>s width \<longrightarrow>
        calculateHorizontalDistance len width =
          (len - 1) * width + (goQuo width 2 + (if odd (sint width) then 1 else 0))
        \<and> sint (goQuo width 2 + (if odd (sint width) then 1 else 0)) = (sint width + 1) div 2)
   \<and> calculateHorizontalDistance 5 1 = 4
   \<and> calculateHorizontalDistance 5 2 = 9
   \<and> calculateHorizontalDistance 5 3 = 14"
proof -
  have "calculateHorizontalDistance len 1 = len - 1"
    by (simp add: calculateHorizontalDistance_def)
  moreover have "calculateHorizontalDistance len width =
          (len - 1) * width + (goQuo width 2 + (if odd (sint width) then 1 else 0))"
    if "2 \<le>s width"
  proof -
    from that have "width \<noteq> 1" by (auto simp: word_sle_eq)
    then show ?thesis
      by (simp add: calculateHorizontalDistance_def Let_def goRem2_zero_iff)
  qed
  moreover have "sint (goQuo width 2 + (if odd (sint width) then 1 else 0)) = (sint width + 1) div 2"
    if "2 \<le>s width"
    using that by (intro northSteps_ceiling) (simp add: word_sle_eq)
  moreover have "calculateHorizontalDistance 5 1 = 4" by code_simp
  moreover have "calculateHorizontalDistance 5 2 = 9" by code_simp
  moreover have "calculateHorizontalDistance 5 3 = 14" by code_simp
  ultimately show ?thesis by blast
qed

theorem calculateHorizontalDistance_closed_form_witness:
  "(1::goInt) \<le>s 7 \<and> (2::goInt) \<le>s 5
   \<and> calculateHorizontalDistance 7 1 = 6 \<and> calculateHorizontalDistance 7 5 = 33"
proof -
  from calculateHorizontalDistance_closed_form [of 7 5]
  have "calculateHorizontalDistance 7 1 = 6"
    and "calculateHorizontalDistance 7 5 = (7 - 1) * 5 + (goQuo 5 2 + (if odd (sint (5::goInt)) then 1 else 0))"
    by (simp_all add: word_sle_eq)
  moreover have "goQuo 5 2 = 2" by code_simp
  ultimately show ?thesis by (simp add: word_sle_eq)
qed

subsection \<open>Wrap-around\<close>

text \<open>
  Where Go's arithmetic wraps around, so do the definitions: the row after the largest
  \<open>int\<close> is the least one, the horizontal distance of a field of length \<open>2^62\<close> and
  width 4 is \<open>-2\<close>, and the least \<open>int\<close> is its own absolute value.
\<close>

lemma getNextPlotCoordinate_wraps:
  "getNextPlotCoordinate 2 2 9223372036854775807 = (2, - 9223372036854775808)"
  by code_simp

lemma calculateHorizontalDistance_wraps:
  "calculateHorizontalDistance 4611686018427387904 4 = - 2"
  by code_simp

lemma absInt_wraps: "absInt (- 9223372036854775808) = - 9223372036854775808"
  by code_simp

subsection \<open>The stepper on the integers\<close>

lemma getNext_sint:
  assumes "1 \<le> sint x" "sint x \<le> sint len"
    and "snd (sweepStep (sint len) (sint x, sint y)) \<le> 9223372036854775807"
    and "getNextPlotCoordinate len x y = (x1, y1)"
  shows "(sint x1, sint y1) = sweepStep (sint len) (sint x, sint y)"
proof -
  have x_up: "sint (x + 1) = sint x + 1" if "x \<noteq> len"
  proof -
    from that assms(2) have "sint x < sint len"
      using sint_eq_iff [of x len] by simp
    with sint_bounds(2) [of len] show ?thesis by (intro sint_succ) simp
  qed
  have x_down: "sint (x - 1) = sint x - 1"
    using assms(1) by (intro sint_pred) simp
  have two: "sint (1 + 1 :: goInt) = 2" by simp
  show ?thesis
  proof (cases "even (sint y)")
    case True
    show ?thesis
    proof (cases "x = 1")
      case x: True
      with True assms(3) have "sint y < 9223372036854775807"
        by (simp add: sweepStep_def)
      from sint_succ [OF this] True x assms(4) show ?thesis
        by (auto simp: next_cases sweepStep_def)
    next
      case False
      with True x_down assms(4) show ?thesis
        by (auto simp: next_cases sweepStep_def sint_eq_1_iff)
    qed
  next
    case False
    show ?thesis
    proof (cases "x = 1")
      case True
      with False two assms(4) show ?thesis
        by (auto simp: next_cases sweepStep_def)
    next
      case x: False
      show ?thesis
      proof (cases "x = len")
        case True
        with False x assms(3) have "sint y < 9223372036854775807"
          by (simp add: sweepStep_def sint_eq_1_iff)
        from sint_succ [OF this] False x True assms(4) show ?thesis
          by (auto simp: next_cases sweepStep_def sint_eq_1_iff)
      next
        case len: False
        with False x x_up assms(4) show ?thesis
          by (auto simp: next_cases sweepStep_def sint_eq_1_iff sint_eq_iff)
      qed
    qed
  qed
qed

lemma sweepStep_inv:
  assumes "2 \<le> len" "1 \<le> x" "x \<le> len" "1 \<le> y" "sweepStep len (x, y) = (x1, y1)"
  shows "1 \<le> x1 \<and> x1 \<le> len \<and> y \<le> y1 \<and> y1 \<le> y + 1"
  using assms by (auto simp: sweepStep_def split: if_splits)

lemma sweepStep_x_inv:
  assumes "2 \<le> len" "1 \<le> x" "x \<le> len" "sweepStep len (x, y) = (x1, y1)"
  shows "1 \<le> x1 \<and> x1 \<le> len"
  using assms by (auto simp: sweepStep_def split: if_splits)

subsection \<open>Induction along the sweep\<close>

lemma next_inv:
  assumes "2 \<le> sint len" "1 \<le> sint x" "sint x \<le> sint len" "1 \<le> sint y"
    and "sint y < 9223372036854775807"
    and n: "getNextPlotCoordinate len x y = (x1, y1)"
  shows "1 \<le> sint x1 \<and> sint x1 \<le> sint len \<and> 1 \<le> sint y1"
proof -
  obtain a b where s: "sweepStep (sint len) (sint x, sint y) = (a, b)"
    by (cases "sweepStep (sint len) (sint x, sint y)")
  note inv = sweepStep_inv [OF assms(1-4) s]
  with assms(5) have "snd (sweepStep (sint len) (sint x, sint y)) \<le> 9223372036854775807"
    by (simp add: s)
  from getNext_sint [OF assms(2,3) this n] s inv assms(4) show ?thesis by simp
qed

lemma next_remaining:
  assumes "2 \<le> sint len" "1 \<le> sint x" "sint x \<le> sint len" "1 \<le> sint y"
    and "sint y \<le> sint width" "sint width < 9223372036854775807"
    and n: "getNextPlotCoordinate len x y = (x1, y1)"
  shows "((x1, y1), (x, y)) \<in> remaining len width"
proof -
  from assms(5,6) have "snd (sweepStep (sint len) (sint x, sint y)) \<le> 9223372036854775807"
    by (auto simp: sweepStep_def)
  from getNext_sint [OF assms(2,3) this n]
  have "(sint x1, sint y1) = sweepStep (sint len) (sint x, sint y)" .
  with assms(1-5) show ?thesis
    by (auto simp: sweepStep_def remaining_def split: if_splits)
qed

lemma snake_induct [consumes 5, case_names step]:
  assumes "2 \<le> sint len" "sint width < 9223372036854775807"
    and "1 \<le> sint x" "sint x \<le> sint len" "1 \<le> sint y"
    and step: "\<And>x y. 1 \<le> sint x \<Longrightarrow> sint x \<le> sint len \<Longrightarrow> 1 \<le> sint y \<Longrightarrow>
             (\<And>x1 y1. y \<le>s width \<Longrightarrow> getNextPlotCoordinate len x y = (x1, y1) \<Longrightarrow> P x1 y1)
             \<Longrightarrow> P x y"
  shows "P x y"
proof -
  have wfR: "wf (remaining len width)"
    by (simp add: remaining_def)
  have "1 \<le> sint (fst p) \<longrightarrow> sint (fst p) \<le> sint len \<longrightarrow> 1 \<le> sint (snd p)
          \<longrightarrow> P (fst p) (snd p)" for p
  proof (induct p rule: wf_induct_rule [OF wfR])
    case (1 p)
    show ?case
    proof (intro impI)
      assume inv: "1 \<le> sint (fst p)" "sint (fst p) \<le> sint len" "1 \<le> sint (snd p)"
      show "P (fst p) (snd p)"
      proof (rule step [OF inv])
        fix x1 y1
        assume "snd p \<le>s width"
          and n: "getNextPlotCoordinate len (fst p) (snd p) = (x1, y1)"
        then have y: "sint (snd p) \<le> sint width" by (simp add: word_sle_eq)
        with assms(2) have y': "sint (snd p) < 9223372036854775807" by simp
        from next_remaining [OF assms(1) inv y assms(2) n]
        have "((x1, y1), p) \<in> remaining len width" by simp
        from 1 [OF this] next_inv [OF assms(1) inv y' n]
        show "P x1 y1" by simp
      qed
    qed
  qed
  from this [of "(x, y)"] assms(3-5) show ?thesis by simp
qed

subsection \<open>One round of the loop\<close>

lemma flyLoop_exit:
  "\<not> (x \<le>s len \<and> y \<le>s width) \<Longrightarrow> flyLoop len width treeMap x y a d = Some d"
  by (subst flyLoop.simps) auto

lemma flyLoop_step:
  assumes "x \<le>s len" "y \<le>s width" "getNextPlotCoordinate len x y = (x1, y1)"
  shows "flyLoop len width treeMap x y a d =
     (case treeMap (generateTreeKey x1 y1) of
        None \<Rightarrow> if a \<noteq> 1 then flyLoop len width treeMap x1 y1 1 (d + absInt (a - 1))
                else flyLoop len width treeMap x1 y1 a d
      | Some h \<Rightarrow> flyLoop len width treeMap x1 y1 (h + 1) (d + absInt (h + 1 - a)))"
  using assms by (subst flyLoop.simps) simp

lemma next_one: "getNextPlotCoordinate 1 1 1 = (2, 1)"
  by (simp add: next_cases)

text \<open>
  A result of the loop is a result of one of its rounds: what holds of every round that
  returns, given that it holds of the rounds after it, holds of the loop.
\<close>

lemma flyLoop_Some_induct:
  assumes run: "flyLoop len width treeMap x y a d = Some r"
    and step: "\<And>f len width treeMap x y a d r.
      (\<And>len width treeMap x y a d r.
          f len width treeMap x y a d = Some r \<Longrightarrow> P len width treeMap x y a d r) \<Longrightarrow>
      (if x \<le>s len \<and> y \<le>s width then
        (case getNextPlotCoordinate len x y of
           (x1, y1) \<Rightarrow>
             (case treeMap (generateTreeKey x1 y1) of
                None \<Rightarrow>
                  (if a \<noteq> 1 then f len width treeMap x1 y1 1 (d + absInt (a - 1))
                   else f len width treeMap x1 y1 a d)
              | Some treeHeight \<Rightarrow>
                  f len width treeMap x1 y1 (treeHeight + 1)
                    (d + absInt (treeHeight + 1 - a))))
      else Some d) = Some r \<Longrightarrow> P len width treeMap x y a d r"
  shows "P len width treeMap x y a d r"
proof -
  note rule = flyLoop.raw_induct
      [where P = P and xa = "((((((len, width), treeMap), x), y), a), d)" and ya = r,
       unfolded prod.case]
  show ?thesis
    by (rule rule [OF step run])
qed

subsection \<open>Termination\<close>

lemma flyLoop_terminates_snake:
  assumes "2 \<le> sint len" "sint width < 9223372036854775807"
    and "1 \<le> sint x" "sint x \<le> sint len" "1 \<le> sint y"
  shows "\<exists>r. flyLoop len width treeMap x y a d = Some r"
  using assms
proof (induction x y arbitrary: a d rule: snake_induct [where width = width])
  case (step x y)
  show ?case
  proof (cases "x \<le>s len \<and> y \<le>s width")
    case False
    then show ?thesis by (simp add: flyLoop_exit)
  next
    case True
    obtain x1 y1 where n: "getNextPlotCoordinate len x y = (x1, y1)"
      by (cases "getNextPlotCoordinate len x y")
    from True n step.IH have "\<And>a d. \<exists>r. flyLoop len width treeMap x1 y1 a d = Some r"
      by blast
    with True n show ?thesis
      by (simp add: flyLoop_step [where ?x1.0 = x1 and ?y1.0 = y1] split: option.split)
  qed
qed

text \<open>
  In a field one plot long the first move goes east, out of the field, and the loop ends
  there; a field with no plot at all is never entered.
\<close>

lemma flyLoop_terminates_start:
  assumes "sint len < 2 \<or> sint width < 9223372036854775807"
  shows "\<exists>r. flyLoop len width treeMap 1 1 a d = Some r"
proof -
  consider "sint len \<le> 0" | "len = 1" | "2 \<le> sint len"
    using sint_eq_1_iff [of len] by fastforce
  then show ?thesis
  proof cases
    case 1
    then show ?thesis by (simp add: flyLoop_exit word_sle_eq)
  next
    case 2
    have out: "\<And>a d. flyLoop 1 width treeMap 2 1 a d = Some d"
      by (simp add: flyLoop_exit word_sle_eq)
    show ?thesis
    proof (cases "1 \<le>s width")
      case True
      then show ?thesis
        unfolding 2
        by (simp add: flyLoop_step [OF _ _ next_one] out split: option.split)
    next
      case False
      then show ?thesis by (simp add: flyLoop_exit)
    qed
  next
    case 3
    with assms show ?thesis by (intro flyLoop_terminates_snake) auto
  qed
qed

subsection \<open>The widest field\<close>

text \<open>
  In a field at least two plots long whose width is the largest \<open>int\<close>, \<open>y <= width\<close>
  holds of every \<open>y\<close>, and \<open>x\<close> never leaves the field: the loop does not end.
\<close>

lemma next_x_inv:
  assumes "2 \<le> sint len" "1 \<le> sint x" "sint x \<le> sint len"
    and n: "getNextPlotCoordinate len x y = (x1, y1)"
  shows "1 \<le> sint x1 \<and> sint x1 \<le> sint len"
proof -
  have x_up: "sint (x + 1) = sint x + 1" if "x \<noteq> len"
  proof -
    from that assms(3) have "sint x < sint len"
      using sint_eq_iff [of x len] by simp
    with sint_bounds(2) [of len] show ?thesis by (intro sint_succ) simp
  qed
  have x_down: "sint (x - 1) = sint x - 1"
    using assms(2) by (intro sint_pred) simp
  have two: "sint (1 + 1 :: goInt) = 2" by simp
  have ne1: "x \<noteq> 1 \<Longrightarrow> sint x \<noteq> 1" by (simp add: sint_eq_1_iff)
  have nel: "x \<noteq> len \<Longrightarrow> sint x \<noteq> sint len" by (simp add: sint_eq_iff)
  from n assms x_up x_down two ne1 nel show ?thesis
    by (auto simp: next_cases split: if_splits)
qed

lemma flyLoop_diverges:
  assumes "2 \<le> sint len" "1 \<le> sint x" "sint x \<le> sint len"
  shows "flyLoop len maxInt treeMap x y a d = None"
proof (rule ccontr)
  assume "flyLoop len maxInt treeMap x y a d \<noteq> None"
  then obtain r where run: "flyLoop len maxInt treeMap x y a d = Some r" by blast
  define P where "P = (\<lambda>(len::goInt) (width::goInt) (treeMap :: string \<rightharpoonup> goInt)
      (x::goInt) (y::goInt) (a::goInt) (d::goInt) (r::goInt).
      2 \<le> sint len \<and> width = maxInt \<and> 1 \<le> sint x \<and> sint x \<le> sint len \<longrightarrow> False)"
  have "P len maxInt treeMap x y a d r"
  proof (rule flyLoop_Some_induct [OF run])
    fix f len width and treeMap :: "string \<rightharpoonup> goInt" and x y a d r :: goInt
    assume IH: "\<And>len width treeMap x y a d r.
          f len width treeMap x y a d = Some r \<Longrightarrow> P len width treeMap x y a d r"
      and body: "(if x \<le>s len \<and> y \<le>s width then
        (case getNextPlotCoordinate len x y of
           (x1, y1) \<Rightarrow>
             (case treeMap (generateTreeKey x1 y1) of
                None \<Rightarrow>
                  (if a \<noteq> 1 then f len width treeMap x1 y1 1 (d + absInt (a - 1))
                   else f len width treeMap x1 y1 a d)
              | Some treeHeight \<Rightarrow>
                  f len width treeMap x1 y1 (treeHeight + 1)
                    (d + absInt (treeHeight + 1 - a))))
      else Some d) = Some r"
    show "P len width treeMap x y a d r"
      unfolding P_def
    proof (intro impI, elim conjE)
      assume inv: "2 \<le> sint len" "width = maxInt" "1 \<le> sint x" "sint x \<le> sint len"
      obtain x1 y1 where n: "getNextPlotCoordinate len x y = (x1, y1)"
        by (cases "getNextPlotCoordinate len x y")
      have guard: "x \<le>s len \<and> y \<le>s width"
        using inv sint_bounds(2) [of y] by (simp add: word_sle_eq sint_maxInt)
      from next_x_inv [OF inv(1,3,4) n] inv(1,2)
      have rest: "\<And>a d r. f len width treeMap x1 y1 a d = Some r \<Longrightarrow> False"
        using IH [of len width treeMap x1 y1] by (simp add: P_def)
      from body guard n rest show False
        by (auto split: option.splits if_splits)
    qed
  qed
  with assms show False by (simp add: P_def)
qed

text \<open>
  C9 fails in the widest field: with a length of 3 and the largest \<open>int\<close> as width, both
  at least 1, \<open>calculateFlyDistance\<close> does not return.
\<close>

theorem calculateFlyDistance_widest_field_runs_forever:
  "(1::goInt) \<le>s 3 \<and> (1::goInt) \<le>s 9223372036854775807
   \<and> calculateFlyDistance 3 9223372036854775807 [generateTreeKey 2 1 \<mapsto> 4] = None"
proof -
  have "calculateFlyDistance 3 maxInt [generateTreeKey 2 1 \<mapsto> 4] = None"
    unfolding calculateFlyDistance_def by (rule flyLoop_diverges) simp_all
  then show ?thesis by (simp add: maxInt_def word_sle_eq)
qed

text \<open>
  C9, as the code has it.  For every \<open>len \<ge> 1\<close> and \<open>width \<ge> 1\<close> where the width is
  less than the largest \<open>int\<close> or the length is 1, and every tree map, the loop of
  \<open>calculateFlyDistance\<close> is left after finitely many rounds: the function returns a
  distance.
\<close>

theorem calculateFlyDistance_terminates:
  assumes "1 \<le>s len" "1 \<le>s width" "width <s maxInt \<or> len = 1"
  shows "\<exists>distance. calculateFlyDistance len width treeMap = Some distance"
  unfolding calculateFlyDistance_def
  using assms(3) by (intro flyLoop_terminates_start) (auto simp: word_sless_alt sint_maxInt)

theorem calculateFlyDistance_terminates_witness:
  "(1::goInt) \<le>s 3 \<and> (1::goInt) \<le>s 2 \<and> ((2::goInt) <s maxInt \<or> (3::goInt) = 1)
   \<and> (\<exists>distance. calculateFlyDistance 3 2 [''2,2'' \<mapsto> 7] = Some distance)"
proof -
  have h: "(1::goInt) \<le>s 3" "(1::goInt) \<le>s 2" "(2::goInt) <s maxInt \<or> (3::goInt) = 1"
    by (simp_all add: word_sle_eq word_sless_alt sint_maxInt)
  from h calculateFlyDistance_terminates [OF h] show ?thesis by blast
qed

subsection \<open>The tree key\<close>

text \<open>
  A number's decimal form is read back digit by digit, the sign tells a negative number
  from the others, and neither holds a comma: the key splits at its only comma into the
  two numbers it was made of.
\<close>

lemma digitChar_inj:
  assumes "a < 10" "b < 10" "digitChar a = digitChar b"
  shows "a = b"
proof -
  have "distinct ''0123456789''" by simp
  moreover have "a < length ''0123456789''" "b < length ''0123456789''"
    using assms by simp_all
  ultimately show ?thesis
    using assms(3) unfolding digitChar_def by (simp only: nth_eq_iff_index_eq)
qed

lemma digitChar_in: "d < 10 \<Longrightarrow> digitChar d \<in> set ''0123456789''"
  unfolding digitChar_def by (rule nth_mem) simp

lemma natDigits_chars: "set (natDigits n) \<subseteq> set ''0123456789''"
proof (induction n rule: natDigits.induct)
  case (1 n)
  show ?case
  proof (cases "n < 10")
    case True
    then show ?thesis
      using digitChar_in [of n] by (subst natDigits.simps) simp
  next
    case False
    have "n mod 10 < 10" by simp
    from digitChar_in [OF this] 1 [OF False] False show ?thesis
      by (subst natDigits.simps) simp
  qed
qed

lemma natDigits_nonempty: "natDigits n \<noteq> []"
  by (subst natDigits.simps) simp

lemma natDigits_small: "n < 10 \<Longrightarrow> natDigits n = [digitChar n]"
  by (subst natDigits.simps) simp

lemma natDigits_large: "\<not> n < 10 \<Longrightarrow> natDigits n = natDigits (n div 10) @ [digitChar (n mod 10)]"
  by (subst natDigits.simps) simp

lemma natDigits_inj: "natDigits n = natDigits m \<Longrightarrow> n = m"
proof (induction n arbitrary: m rule: natDigits.induct)
  case (1 n)
  note eq = \<open>natDigits n = natDigits m\<close>
  show ?case
  proof (cases "n < 10")
    case n: True
    show ?thesis
    proof (cases "m < 10")
      case True
      from eq have "digitChar n = digitChar m"
        by (simp add: natDigits_small n True)
      from digitChar_inj [OF n True this] show ?thesis .
    next
      case False
      from eq have "[digitChar n] = natDigits (m div 10) @ [digitChar (m mod 10)]"
        by (simp add: natDigits_small [OF n] natDigits_large [OF False])
      with natDigits_nonempty [of "m div 10"] show ?thesis by simp
    qed
  next
    case n: False
    show ?thesis
    proof (cases "m < 10")
      case True
      from eq have "natDigits (n div 10) @ [digitChar (n mod 10)] = [digitChar m]"
        by (simp add: natDigits_small [OF True] natDigits_large [OF n])
      with natDigits_nonempty [of "n div 10"] show ?thesis by simp
    next
      case False
      from eq have
        "natDigits (n div 10) @ [digitChar (n mod 10)] = natDigits (m div 10) @ [digitChar (m mod 10)]"
        by (simp add: natDigits_large [OF False] natDigits_large [OF n])
      then have d: "natDigits (n div 10) = natDigits (m div 10)"
        and r: "digitChar (n mod 10) = digitChar (m mod 10)"
        by simp_all
      from "1.IH" [OF n d] have q: "n div 10 = m div 10" .
      from digitChar_inj [OF _ _ r] have "n mod 10 = m mod 10" by simp
      then have "n div 10 * 10 + n mod 10 = m div 10 * 10 + m mod 10"
        by (simp only: q)
      then show ?thesis by (simp only: div_mult_mod_eq)
    qed
  qed
qed

lemma natDigits_no_comma: "CHR '','' \<notin> set (natDigits n)"
  using natDigits_chars [of n] by auto

lemma natDigits_hd: "hd (natDigits n) \<noteq> CHR ''-''"
proof -
  have "hd (natDigits n) \<in> set (natDigits n)"
    using natDigits_nonempty by simp
  with natDigits_chars [of n] show ?thesis by auto
qed

lemma formatInt_no_comma: "CHR '','' \<notin> set (formatInt i)"
  by (simp add: formatInt_def natDigits_no_comma)

lemma formatInt_sign:
  assumes "formatInt i = formatInt j" "i < 0"
  shows "j < 0"
proof (rule ccontr)
  assume "\<not> j < 0"
  with assms have "CHR ''-'' # natDigits (nat (- i)) = natDigits (nat j)"
    by (simp add: formatInt_def)
  from arg_cong [OF this, of hd] have "hd (natDigits (nat j)) = CHR ''-''"
    by simp
  with natDigits_hd show False by blast
qed

lemma formatInt_inj:
  assumes eq: "formatInt i = formatInt j"
  shows "i = j"
proof (cases "i < 0")
  case True
  from formatInt_sign [OF eq True] have j: "j < 0" .
  with True eq have "natDigits (nat (- i)) = natDigits (nat (- j))"
    by (simp add: formatInt_def)
  from natDigits_inj [OF this] True j show ?thesis by simp
next
  case False
  from formatInt_sign [OF eq [symmetric]] False have j: "\<not> j < 0" by blast
  with False eq have "natDigits (nat i) = natDigits (nat j)"
    by (simp add: formatInt_def)
  from natDigits_inj [OF this] False j show ?thesis by simp
qed

lemma split_at_separator:
  assumes "c \<notin> set a" "c \<notin> set a'" "a @ c # b = a' @ c # b'"
  shows "a = a' \<and> b = b'"
  using assms
proof (induction a arbitrary: a')
  case Nil
  then show ?case by (cases a') auto
next
  case (Cons u a)
  then show ?case by (cases a') auto
qed

lemma generateTreeKey_inj:
  assumes "generateTreeKey x1 y1 = generateTreeKey x2 y2"
  shows "x1 = x2 \<and> y1 = y2"
proof -
  from assms have "formatInt (sint x1) @ CHR '','' # formatInt (sint y1)
      = formatInt (sint x2) @ CHR '','' # formatInt (sint y2)"
    by (simp add: generateTreeKey_def)
  from split_at_separator [OF formatInt_no_comma formatInt_no_comma this]
  have "sint x1 = sint x2" "sint y1 = sint y2"
    by (auto dest: formatInt_inj)
  then show ?thesis by (simp add: sint_eq_iff)
qed

text \<open>
  C8.  \<open>generateTreeKey\<close> is injective on the coordinates of plots: two different pairs
  with all components at least 1 get different keys.
\<close>

theorem generateTreeKey_injective:
  assumes "1 \<le>s x1" "1 \<le>s y1" "1 \<le>s x2" "1 \<le>s y2" "(x1, y1) \<noteq> (x2, y2)"
  shows "generateTreeKey x1 y1 \<noteq> generateTreeKey x2 y2"
  using assms(5) generateTreeKey_inj [of x1 y1 x2 y2] by auto

theorem generateTreeKey_injective_witness:
  "(1::goInt) \<le>s 1 \<and> (1::goInt) \<le>s 12 \<and> (1::goInt) \<le>s 11 \<and> (1::goInt) \<le>s 2
   \<and> ((1::goInt), (12::goInt)) \<noteq> (11, 2)
   \<and> generateTreeKey 1 12 \<noteq> generateTreeKey 11 2"
proof -
  have "(1::goInt) \<le>s 1" "(1::goInt) \<le>s 12" "(1::goInt) \<le>s 11" "(1::goInt) \<le>s 2"
    "((1::goInt), (12::goInt)) \<noteq> (11, 2)"
    by (simp_all add: word_sle_eq)
  from this generateTreeKey_injective [OF this] show ?thesis by blast
qed

subsection \<open>A field without trees\<close>

lemma flyLoop_empty_snake:
  assumes "2 \<le> sint len" "sint width < 9223372036854775807"
    and "1 \<le> sint x" "sint x \<le> sint len" "1 \<le> sint y"
  shows "flyLoop len width Map.empty x y 1 d = Some d"
  using assms
proof (induction x y rule: snake_induct [where width = width])
  case (step x y)
  show ?case
  proof (cases "x \<le>s len \<and> y \<le>s width")
    case False
    then show ?thesis by (rule flyLoop_exit)
  next
    case True
    obtain x1 y1 where n: "getNextPlotCoordinate len x y = (x1, y1)"
      by (cases "getNextPlotCoordinate len x y")
    from True n step.IH have "flyLoop len width Map.empty x1 y1 1 d = Some d"
      by blast
    with True n show ?thesis
      by (simp add: flyLoop_step [where ?x1.0 = x1 and ?y1.0 = y1])
  qed
qed

lemma flyLoop_empty_start:
  assumes "sint len < 2 \<or> sint width < 9223372036854775807"
  shows "flyLoop len width Map.empty 1 1 1 d = Some d"
proof -
  consider "sint len \<le> 0" | "len = 1" | "2 \<le> sint len"
    using sint_eq_1_iff [of len] by fastforce
  then show ?thesis
  proof cases
    case 1
    then show ?thesis by (simp add: flyLoop_exit word_sle_eq)
  next
    case 2
    have out: "\<And>a d. flyLoop 1 width Map.empty 2 1 a d = Some d"
      by (simp add: flyLoop_exit word_sle_eq)
    show ?thesis
    proof (cases "1 \<le>s width")
      case True
      then show ?thesis
        unfolding 2 by (simp add: flyLoop_step [OF _ _ next_one] out)
    next
      case False
      then show ?thesis by (simp add: flyLoop_exit)
    qed
  next
    case 3
    with assms show ?thesis by (intro flyLoop_empty_snake) auto
  qed
qed

text \<open>
  C6 fails in the widest field: with a length of 2 and the largest \<open>int\<close> as width, both
  at least 1, and no trees, \<open>calculateFlyDistance\<close> does not return.
\<close>

theorem calculateFlyDistance_no_trees_widest_field:
  "(1::goInt) \<le>s 2 \<and> (1::goInt) \<le>s 9223372036854775807
   \<and> calculateFlyDistance 2 9223372036854775807 Map.empty = None"
proof -
  have "calculateFlyDistance 2 maxInt Map.empty = None"
    unfolding calculateFlyDistance_def by (rule flyLoop_diverges) simp_all
  then show ?thesis by (simp add: maxInt_def word_sle_eq)
qed

text \<open>
  C6, as the code has it.  For every \<open>len \<ge> 1\<close> and \<open>width \<ge> 1\<close> where the width is
  less than the largest \<open>int\<close> or the length is 1, with an empty tree map,
  \<open>calculateFlyDistance\<close> returns \<open>2 + 10 * calculateHorizontalDistance len width\<close>, in
  Go's arithmetic.
\<close>

theorem calculateFlyDistance_no_trees:
  assumes "1 \<le>s len" "1 \<le>s width" "width <s maxInt \<or> len = 1"
  shows "calculateFlyDistance len width Map.empty
           = Some (2 + 10 * calculateHorizontalDistance len width)"
proof -
  from assms(3) have "sint len < 2 \<or> sint width < 9223372036854775807"
    by (auto simp: word_sless_alt sint_maxInt)
  then show ?thesis
    by (simp add: calculateFlyDistance_def flyLoop_empty_start)
qed

theorem calculateFlyDistance_no_trees_witness:
  "(1::goInt) \<le>s 4 \<and> (1::goInt) \<le>s 3 \<and> ((3::goInt) <s maxInt \<or> (4::goInt) = 1)
   \<and> calculateFlyDistance 4 3 Map.empty = Some 112
   \<and> calculateHorizontalDistance 4 3 = 11"
proof -
  have h: "(1::goInt) \<le>s 4" "(1::goInt) \<le>s 3" "(3::goInt) <s maxInt \<or> (4::goInt) = 1"
    by (simp_all add: word_sle_eq word_sless_alt sint_maxInt)
  have v: "calculateHorizontalDistance 4 3 = 11" by code_simp
  from h v calculateFlyDistance_no_trees [OF h] show ?thesis by simp
qed

subsection \<open>The loop against the specification's algorithm\<close>

lemma absInt_magnitude: "absInt v = magnitude v"
proof (cases "sint v < 0")
  case True
  have "- v = word_of_int (- sint v)" by simp
  with True show ?thesis by (simp add: absInt_def magnitude_def word_sless_alt)
next
  case False
  then show ?thesis by (simp add: absInt_def magnitude_def word_sless_alt)
qed

lemma tableOf_apply: "tableOf treeMap (x, y) = treeMap (generateTreeKey x y)"
  by (simp add: tableOf_def)

lemma specLoop_unfold:
  "specLoop len width table (x, y) a d =
     (if x \<le>s len \<and> y \<le>s width then
        (case getNextPlotCoordinate len x y of
           (x1, y1) \<Rightarrow>
             (case table (x1, y1) of
                None \<Rightarrow> if a \<noteq> 1 then specLoop len width table (x1, y1) 1 (d + magnitude (a - 1))
                        else specLoop len width table (x1, y1) a d
              | Some h \<Rightarrow> specLoop len width table (x1, y1) (h + 1) (d + magnitude (h + 1 - a))))
      else Some d)"
  by (subst specLoop.simps) (simp add: Let_def split: prod.split option.split)

lemma specLoop_Some_induct:
  assumes run: "specLoop len width table p a d = Some r"
    and step: "\<And>f len width table p a d r.
      (\<And>len width table p a d r.
          f len width table p a d = Some r \<Longrightarrow> P len width table p a d r) \<Longrightarrow>
      (if fst p \<le>s len \<and> snd p \<le>s width then
        (let p' = getNextPlotCoordinate len (fst p) (snd p) in
           (case table p' of
              None \<Rightarrow>
                (if a \<noteq> 1 then f len width table p' 1 (d + magnitude (a - 1))
                 else f len width table p' a d)
            | Some h \<Rightarrow>
                (let required = h + 1 in
                   f len width table p' required (d + magnitude (required - a)))))
      else Some d) = Some r \<Longrightarrow> P len width table p a d r"
  shows "P len width table p a d r"
  by (rule specLoop.raw_induct [where P = P, OF step run])

lemma flyLoop_imp_specLoop:
  assumes "flyLoop len width treeMap x y a d = Some r"
  shows "specLoop len width (tableOf treeMap) (x, y) a d = Some r"
proof (rule flyLoop_Some_induct
    [OF assms, where P = "\<lambda>len width treeMap x y a d r.
       specLoop len width (tableOf treeMap) (x, y) a d = Some r"])
  fix f len width and treeMap :: "string \<rightharpoonup> goInt" and x y a d r :: goInt
  assume IH: "\<And>len width treeMap x y a d r.
          f len width treeMap x y a d = Some r \<Longrightarrow>
          specLoop len width (tableOf treeMap) (x, y) a d = Some r"
    and body: "(if x \<le>s len \<and> y \<le>s width then
        (case getNextPlotCoordinate len x y of
           (x1, y1) \<Rightarrow>
             (case treeMap (generateTreeKey x1 y1) of
                None \<Rightarrow>
                  (if a \<noteq> 1 then f len width treeMap x1 y1 1 (d + absInt (a - 1))
                   else f len width treeMap x1 y1 a d)
              | Some treeHeight \<Rightarrow>
                  f len width treeMap x1 y1 (treeHeight + 1)
                    (d + absInt (treeHeight + 1 - a))))
      else Some d) = Some r"
  from body show "specLoop len width (tableOf treeMap) (x, y) a d = Some r"
    by (subst specLoop_unfold)
       (auto simp: tableOf_apply absInt_magnitude intro: IH split: prod.splits option.splits if_splits)
qed

lemma specLoop_imp_flyLoop:
  assumes "specLoop len width (tableOf treeMap) (x, y) a d = Some r"
  shows "flyLoop len width treeMap x y a d = Some r"
proof -
  have "\<forall>treeMap. table = tableOf treeMap \<longrightarrow> flyLoop len width treeMap (fst p) (snd p) a d = Some r"
    if "specLoop len width table p a d = Some r" for table p
  proof (rule specLoop_Some_induct
    [OF that, where P = "\<lambda>len width table p a d r.
       \<forall>treeMap. table = tableOf treeMap \<longrightarrow> flyLoop len width treeMap (fst p) (snd p) a d = Some r"])
    fix f len width and table :: "goInt \<times> goInt \<rightharpoonup> goInt" and p and a d r :: goInt
    assume IH: "\<And>len width table p a d r.
          f len width table p a d = Some r \<Longrightarrow>
          \<forall>treeMap. table = tableOf treeMap \<longrightarrow> flyLoop len width treeMap (fst p) (snd p) a d = Some r"
      and body: "(if fst p \<le>s len \<and> snd p \<le>s width then
        (let p' = getNextPlotCoordinate len (fst p) (snd p) in
           (case table p' of
              None \<Rightarrow>
                (if a \<noteq> 1 then f len width table p' 1 (d + magnitude (a - 1))
                 else f len width table p' a d)
            | Some h \<Rightarrow>
                (let required = h + 1 in
                   f len width table p' required (d + magnitude (required - a)))))
      else Some d) = Some r"
    show "\<forall>treeMap. table = tableOf treeMap \<longrightarrow> flyLoop len width treeMap (fst p) (snd p) a d = Some r"
    proof (intro allI impI)
      fix treeMap assume t: "table = tableOf treeMap"
      obtain x1 y1 where n: "getNextPlotCoordinate len (fst p) (snd p) = (x1, y1)"
        by (cases "getNextPlotCoordinate len (fst p) (snd p)")
      have IH': "\<And>a d r. f len width table (x1, y1) a d = Some r
                  \<Longrightarrow> flyLoop len width treeMap x1 y1 a d = Some r"
        using IH [of len width table "(x1, y1)"] t by simp
      from body n t show "flyLoop len width treeMap (fst p) (snd p) a d = Some r"
        by (subst flyLoop.simps)
           (auto simp: tableOf_apply absInt_magnitude Let_def intro: IH'
                 split: option.splits if_splits)
    qed
  qed
  from this [OF assms] show ?thesis by simp
qed

lemma flyLoop_specLoop:
  "flyLoop len width treeMap x y a d = specLoop len width (tableOf treeMap) (x, y) a d"
proof (cases "flyLoop len width treeMap x y a d")
  case None
  show ?thesis
  proof (cases "specLoop len width (tableOf treeMap) (x, y) a d")
    case (Some r)
    from specLoop_imp_flyLoop [OF this] None show ?thesis by simp
  qed (simp add: None)
next
  case (Some r)
  from flyLoop_imp_specLoop [OF this] Some show ?thesis by simp
qed

text \<open>
  C2.  \<open>calculateFlyDistance\<close> computes what the reference algorithm of the
  specification (section 4.3) computes on the obstacle table that the tree map stands
  for: the same initial distance, the same stepping, the same charge for a free plot and
  for a tree.  The two agree on every input, and they return a distance whenever the
  length is less than 2 or the width is less than the largest \<open>int\<close>.
\<close>

theorem calculateFlyDistance_refines_spec:
  "calculateFlyDistance len width treeMap = specFlyDistance len width (tableOf treeMap)
   \<and> (len <s 2 \<or> width <s maxInt \<longrightarrow>
        (\<exists>distance. calculateFlyDistance len width treeMap = Some distance
            \<and> specFlyDistance len width (tableOf treeMap) = Some distance))"
proof -
  have eq: "calculateFlyDistance len width treeMap = specFlyDistance len width (tableOf treeMap)"
    by (simp add: calculateFlyDistance_def specFlyDistance_def flyLoop_specLoop mult.commute)
  have "\<exists>distance. calculateFlyDistance len width treeMap = Some distance"
    if "len <s 2 \<or> width <s maxInt"
    unfolding calculateFlyDistance_def
    using that by (intro flyLoop_terminates_start) (auto simp: word_sless_alt sint_maxInt)
  then have "len <s 2 \<or> width <s maxInt \<longrightarrow>
        (\<exists>distance. calculateFlyDistance len width treeMap = Some distance
            \<and> specFlyDistance len width (tableOf treeMap) = Some distance)"
    unfolding eq [symmetric] by blast
  with eq show ?thesis by (rule conjI)
qed

theorem calculateFlyDistance_refines_spec_witness:
  "((3::goInt) <s 2 \<or> (1::goInt) <s maxInt)
   \<and> calculateFlyDistance 3 1 [generateTreeKey 2 1 \<mapsto> 9223372036854775807] = Some 20
   \<and> specFlyDistance 3 1 (tableOf [generateTreeKey 2 1 \<mapsto> 9223372036854775807]) = Some 20"
proof -
  have h: "(3::goInt) <s 2 \<or> (1::goInt) <s maxInt"
    by (simp add: word_sless_alt sint_maxInt)
  have v: "calculateFlyDistance 3 1 [generateTreeKey 2 1 \<mapsto> 9223372036854775807] = Some 20"
    by code_simp
  from calculateFlyDistance_refines_spec [of 3 1 "[generateTreeKey 2 1 \<mapsto> 9223372036854775807]"]
  have "\<exists>distance.
      calculateFlyDistance 3 1 [generateTreeKey 2 1 \<mapsto> 9223372036854775807] = Some distance
      \<and> specFlyDistance 3 1 (tableOf [generateTreeKey 2 1 \<mapsto> 9223372036854775807])
          = Some distance"
    using h by (rule conjunct2 [THEN mp])
  then obtain distance where
    "calculateFlyDistance 3 1 [generateTreeKey 2 1 \<mapsto> 9223372036854775807] = Some distance"
    and s: "specFlyDistance 3 1 (tableOf [generateTreeKey 2 1 \<mapsto> 9223372036854775807])
          = Some distance"
    by blast
  with v have "distance = 20" by simp
  with s h v show ?thesis by simp
qed

subsection \<open>The start plot\<close>

lemma next_not_start:
  assumes "1 \<le> sint x" "1 \<le> sint y"
  shows "getNextPlotCoordinate len x y \<noteq> (1, 1)"
proof -
  from assms have x: "x \<noteq> 0" and y: "y \<noteq> 0" by auto
  have "x + 1 \<noteq> 1" using x by simp
  moreover have "y + 1 \<noteq> 1" using y by simp
  moreover have "odd (sint (1::goInt))" by simp
  ultimately show ?thesis
    by (auto simp: next_cases)
qed

lemma flyLoop_agree_snake:
  assumes agree: "\<And>x y. (x, y) \<noteq> (1, 1) \<Longrightarrow> T (generateTreeKey x y) = T' (generateTreeKey x y)"
    and "2 \<le> sint len" "sint width < 9223372036854775807"
    and "1 \<le> sint x" "sint x \<le> sint len" "1 \<le> sint y"
  shows "flyLoop len width T x y a d = flyLoop len width T' x y a d"
  using assms(2-)
proof (induction x y arbitrary: a d rule: snake_induct [where width = width])
  case (step x y)
  show ?case
  proof (cases "x \<le>s len \<and> y \<le>s width")
    case False
    then show ?thesis by (simp add: flyLoop_exit)
  next
    case True
    obtain x1 y1 where n: "getNextPlotCoordinate len x y = (x1, y1)"
      by (cases "getNextPlotCoordinate len x y")
    from True n step.IH
    have IH: "\<And>a d. flyLoop len width T x1 y1 a d = flyLoop len width T' x1 y1 a d"
      by blast
    from next_not_start [OF \<open>1 \<le> sint x\<close> \<open>1 \<le> sint y\<close>, of len] n
    have "(x1, y1) \<noteq> (1, 1)" by simp
    from agree [OF this] True n show ?thesis
      by (simp add: flyLoop_step [where ?x1.0 = x1 and ?y1.0 = y1] IH split: option.split)
  qed
qed

lemma flyLoop_agree_start:
  assumes agree: "\<And>x y. (x, y) \<noteq> (1, 1) \<Longrightarrow> T (generateTreeKey x y) = T' (generateTreeKey x y)"
    and "sint len < 2 \<or> sint width < 9223372036854775807"
  shows "flyLoop len width T 1 1 a d = flyLoop len width T' 1 1 a d"
proof -
  consider "sint len \<le> 0" | "len = 1" | "2 \<le> sint len"
    using sint_eq_1_iff [of len] by fastforce
  then show ?thesis
  proof cases
    case 1
    then show ?thesis by (simp add: flyLoop_exit word_sle_eq)
  next
    case 2
    have out: "\<And>T a d. flyLoop 1 width T 2 1 a d = Some d"
      by (simp add: flyLoop_exit word_sle_eq)
    show ?thesis
    proof (cases "1 \<le>s width")
      case True
      from agree [of 2 1] True show ?thesis
        unfolding 2
        by (simp add: flyLoop_step [OF _ _ next_one] out split: option.split)
    next
      case False
      then show ?thesis by (simp add: flyLoop_exit)
    qed
  next
    case 3
    with agree assms(2) show ?thesis by (intro flyLoop_agree_snake) auto
  qed
qed

lemma even_sint_of_nat: "even (sint (of_nat j :: goInt)) \<longleftrightarrow> even j"
  by (simp add: signed_of_nat even_signed_take_bit_iff)

lemma even_sint_add:
  "even (sint (a + b :: goInt)) \<longleftrightarrow> (even (sint a) \<longleftrightarrow> even (sint b))"
  by (simp add: sint_word_ariths even_signed_take_bit_iff)

lemma two_rounds:
  "stepPlot 2 (stepPlot 2 (if even j then 1 else 2, of_nat j + 1))
     = (if even (Suc j) then 1 else 2, of_nat (Suc j) + 1)"
proof (cases "even j")
  case True
  then have "odd (sint (of_nat j + 1 :: goInt))"
    by (simp add: even_sint_add even_sint_of_nat)
  with True show ?thesis
    by (simp add: stepPlot_def next_cases add.commute)
next
  case False
  then have "even (sint (of_nat j + 1 :: goInt))"
    by (simp add: even_sint_add even_sint_of_nat)
  with False show ?thesis
    by (simp add: stepPlot_def next_cases add.commute)
qed

lemma plotAfter_length_2:
  "plotAfter 2 (2 * j) = (if even j then 1 else 2, of_nat j + 1)"
proof (induction j)
  case 0
  show ?case by (simp add: plotAfter_def)
next
  case (Suc j)
  have "plotAfter 2 (2 * Suc j) = stepPlot 2 (stepPlot 2 (plotAfter 2 (2 * j)))"
    by (simp add: plotAfter_def)
  also have "\<dots> = (if even (Suc j) then 1 else 2, of_nat (Suc j) + 1)"
    unfolding Suc by (rule two_rounds)
  finally show ?case .
qed

text \<open>
  In a field two plots long the sweep is at \<open>(1, 1)\<close> or \<open>(2, 2)\<close> of the row pair
  after every second move; the row number wraps around after \<open>2^64\<close> rows, and the
  move with the number \<open>2^65\<close> arrives at the start plot.
\<close>

lemma sweep_returns_to_start: "plotAfter 2 36893488147419103232 = (1, 1)"
proof -
  have "(36893488147419103232::nat) = 2 * 18446744073709551616" by simp
  then have "plotAfter 2 36893488147419103232 = plotAfter 2 (2 * 18446744073709551616)"
    by (simp only:)
  also have "\<dots> = (1, of_nat 18446744073709551616 + 1)"
    unfolding plotAfter_length_2 by simp
  also have "(of_nat 18446744073709551616 :: goInt) = 0"
    by simp
  finally show ?thesis by simp
qed

text \<open>
  C10 fails in the widest field: with a length of 2 and the largest \<open>int\<close> as width,
  both at least 1, the loop never ends, so \<open>calculateFlyDistance\<close> returns no distance
  for a map with an entry for \<open>(1, 1)\<close>; and the sweep does come back to the start
  plot, at its move number \<open>2^65\<close>, after which the loop looks that plot up.
\<close>

theorem start_plot_widest_field:
  "(1::goInt) \<le>s 2 \<and> (1::goInt) \<le>s 9223372036854775807
   \<and> calculateFlyDistance 2 9223372036854775807 [generateTreeKey 1 1 \<mapsto> 5] = None
   \<and> plotAfter 2 36893488147419103232 = (1, 1)"
proof -
  have "calculateFlyDistance 2 maxInt [generateTreeKey 1 1 \<mapsto> 5] = None"
    unfolding calculateFlyDistance_def by (rule flyLoop_diverges) simp_all
  with sweep_returns_to_start show ?thesis by (simp add: maxInt_def word_sle_eq)
qed

text \<open>
  C10, as the code has it.  The start plot \<open>(1, 1)\<close> is never looked up where the sweep
  ends: for \<open>len \<ge> 1\<close> and \<open>width \<ge> 1\<close> where the width is less than the largest
  \<open>int\<close> or the length is 1, a tree map with an entry for \<open>(1, 1)\<close> and the same map
  without it give the same distance.
\<close>

theorem start_plot_never_consulted:
  assumes "1 \<le>s len" "1 \<le>s width" "width <s maxInt \<or> len = 1"
  shows "\<exists>distance.
           calculateFlyDistance len width (treeMap(generateTreeKey 1 1 \<mapsto> h)) = Some distance
         \<and> calculateFlyDistance len width (treeMap(generateTreeKey 1 1 := None)) = Some distance"
proof -
  from assms(3) have range: "sint len < 2 \<or> sint width < 9223372036854775807"
    by (auto simp: word_sless_alt sint_maxInt)
  have "flyLoop len width (treeMap(generateTreeKey 1 1 \<mapsto> h)) 1 1 a d
      = flyLoop len width (treeMap(generateTreeKey 1 1 := None)) 1 1 a d" for a d
  proof (rule flyLoop_agree_start [OF _ range])
    fix x y :: goInt
    assume "(x, y) \<noteq> (1, 1)"
    with generateTreeKey_inj [of x y 1 1] have "generateTreeKey x y \<noteq> generateTreeKey 1 1"
      by auto
    then show "(treeMap(generateTreeKey 1 1 \<mapsto> h)) (generateTreeKey x y)
             = (treeMap(generateTreeKey 1 1 := None)) (generateTreeKey x y)"
      by simp
  qed
  moreover obtain r where
    "calculateFlyDistance len width (treeMap(generateTreeKey 1 1 \<mapsto> h)) = Some r"
    using flyLoop_terminates_start [OF range] unfolding calculateFlyDistance_def by blast
  ultimately show ?thesis
    by (simp add: calculateFlyDistance_def)
qed

theorem start_plot_never_consulted_witness:
  "(1::goInt) \<le>s 3 \<and> (1::goInt) \<le>s 2 \<and> ((2::goInt) <s maxInt \<or> (3::goInt) = 1)
   \<and> (\<exists>distance.
         calculateFlyDistance 3 2 ([generateTreeKey 2 2 \<mapsto> 7](generateTreeKey 1 1 \<mapsto> 9))
           = Some distance
       \<and> calculateFlyDistance 3 2 ([generateTreeKey 2 2 \<mapsto> 7](generateTreeKey 1 1 := None))
           = Some distance)"
proof -
  have h: "(1::goInt) \<le>s 3" "(1::goInt) \<le>s 2" "(2::goInt) <s maxInt \<or> (3::goInt) = 1"
    by (simp_all add: word_sle_eq word_sless_alt sint_maxInt)
  from h start_plot_never_consulted [OF h, of "[generateTreeKey 2 2 \<mapsto> 7]" 9]
  show ?thesis by blast
qed

subsection \<open>The values of the tests\<close>

lemma key_2_1: "generateTreeKey 2 1 = ''2,1''"
  by code_simp

lemma key_3_1: "generateTreeKey 3 1 = ''3,1''"
  by code_simp

lemma key_4_1: "generateTreeKey 4 1 = ''4,1''"
  by code_simp

lemma field_10_1: "calculateFlyDistance 10 1 Map.empty = Some 92"
  by code_simp

lemma field_5_1_order_234:
  "calculateFlyDistance 5 1 (Map.empty(''2,1'' \<mapsto> 5, ''3,1'' \<mapsto> 3, ''4,1'' \<mapsto> 4)) = Some 54"
  by code_simp

lemma field_5_1_order_243:
  "calculateFlyDistance 5 1 (Map.empty(''2,1'' \<mapsto> 5, ''4,1'' \<mapsto> 4, ''3,1'' \<mapsto> 3)) = Some 54"
  by code_simp

lemma field_5_1_order_324:
  "calculateFlyDistance 5 1 (Map.empty(''3,1'' \<mapsto> 3, ''2,1'' \<mapsto> 5, ''4,1'' \<mapsto> 4)) = Some 54"
  by code_simp

lemma field_5_1_order_342:
  "calculateFlyDistance 5 1 (Map.empty(''3,1'' \<mapsto> 3, ''4,1'' \<mapsto> 4, ''2,1'' \<mapsto> 5)) = Some 54"
  by code_simp

lemma field_5_1_order_423:
  "calculateFlyDistance 5 1 (Map.empty(''4,1'' \<mapsto> 4, ''2,1'' \<mapsto> 5, ''3,1'' \<mapsto> 3)) = Some 54"
  by code_simp

lemma field_5_1_order_432:
  "calculateFlyDistance 5 1 (Map.empty(''4,1'' \<mapsto> 4, ''3,1'' \<mapsto> 3, ''2,1'' \<mapsto> 5)) = Some 54"
  by code_simp

lemma field_5_1_equal_heights:
  "calculateFlyDistance 5 1 (Map.empty(''2,1'' \<mapsto> 10, ''3,1'' \<mapsto> 10, ''4,1'' \<mapsto> 10)) = Some 62"
  by code_simp

text \<open>
  C7.  A field of 10 by 1 without trees gives 92.  A field of 5 by 1 with trees of heights
  5, 3 and 4 on the plots (2,1), (3,1) and (4,1) gives 54, in each of the six orders in
  which the three entries can be stored into the map.  The same field with three trees of
  height 10 gives 62.
\<close>

theorem end_to_end_values:
  "calculateFlyDistance 10 1 Map.empty = Some 92
   \<and> calculateFlyDistance 5 1
         (Map.empty(generateTreeKey 2 1 \<mapsto> 5, generateTreeKey 3 1 \<mapsto> 3, generateTreeKey 4 1 \<mapsto> 4))
       = Some 54
   \<and> calculateFlyDistance 5 1
         (Map.empty(generateTreeKey 2 1 \<mapsto> 5, generateTreeKey 4 1 \<mapsto> 4, generateTreeKey 3 1 \<mapsto> 3))
       = Some 54
   \<and> calculateFlyDistance 5 1
         (Map.empty(generateTreeKey 3 1 \<mapsto> 3, generateTreeKey 2 1 \<mapsto> 5, generateTreeKey 4 1 \<mapsto> 4))
       = Some 54
   \<and> calculateFlyDistance 5 1
         (Map.empty(generateTreeKey 3 1 \<mapsto> 3, generateTreeKey 4 1 \<mapsto> 4, generateTreeKey 2 1 \<mapsto> 5))
       = Some 54
   \<and> calculateFlyDistance 5 1
         (Map.empty(generateTreeKey 4 1 \<mapsto> 4, generateTreeKey 2 1 \<mapsto> 5, generateTreeKey 3 1 \<mapsto> 3))
       = Some 54
   \<and> calculateFlyDistance 5 1
         (Map.empty(generateTreeKey 4 1 \<mapsto> 4, generateTreeKey 3 1 \<mapsto> 3, generateTreeKey 2 1 \<mapsto> 5))
       = Some 54
   \<and> calculateFlyDistance 5 1
         (Map.empty(generateTreeKey 2 1 \<mapsto> 10, generateTreeKey 3 1 \<mapsto> 10, generateTreeKey 4 1 \<mapsto> 10))
       = Some 62"
  unfolding key_2_1 key_3_1 key_4_1
  by (intro conjI field_10_1 field_5_1_order_234 field_5_1_order_243 field_5_1_order_324
        field_5_1_order_342 field_5_1_order_423 field_5_1_order_432 field_5_1_equal_heights)

subsection \<open>The plots the sweep visits\<close>

lemma plotAt_row_col:
  assumes "0 \<le> c" "c < len"
  shows "plotAt len (r * len + c) = (if even r then c + 1 else len - c, r + 1)"
proof -
  from assms have "(r * len + c) div len = r" "(r * len + c) mod len = c"
    by simp_all
  then show ?thesis by (simp only: plotAt_def Let_def)
qed

lemma row_col:
  assumes "0 < (len::int)"
  obtains r c where "k = r * len + c" "0 \<le> c" "c < len"
proof
  show "k = k div len * len + k mod len" by simp
  show "0 \<le> k mod len" "k mod len < len" using assms by simp_all
qed

lemma next_plotAt:
  assumes "2 \<le> len"
  shows "sweepStep len (plotAt len k) = plotAt len (k + 1)"
proof -
  from assms have "0 < len" by simp
  then obtain r c where k: "k = r * len + c" and c: "0 \<le> c" "c < len"
    by (rule row_col)
  have here: "plotAt len k = (if even r then c + 1 else len - c, r + 1)"
    unfolding k using c by (rule plotAt_row_col)
  show ?thesis
  proof (cases "c = len - 1")
    case True
    have "k + 1 = (r + 1) * len + 0"
      unfolding k True by (simp add: algebra_simps)
    moreover have "plotAt len ((r + 1) * len + 0) = (if even (r + 1) then 0 + 1 else len - 0, r + 1 + 1)"
      using \<open>0 < len\<close> by (intro plotAt_row_col) simp_all
    ultimately have there: "plotAt len (k + 1) = (if even r then len else 1, r + 2)"
      by simp
    from assms show ?thesis
      unfolding here there True by (simp add: sweepStep_def)
  next
    case False
    with c have c1: "0 \<le> c + 1" "c + 1 < len" by simp_all
    have k1: "k + 1 = r * len + (c + 1)"
      unfolding k by simp
    have there: "plotAt len (k + 1) = (if even r then c + 2 else len - c - 1, r + 1)"
      unfolding k1 plotAt_row_col [OF c1] by simp
    from assms c False show ?thesis
      unfolding here there by (simp add: sweepStep_def)
  qed
qed


lemma indexOf_plotAt:
  assumes "2 \<le> len" 
  shows "indexOf len (plotAt len k) = k"
proof -
  from assms have "0 < len" by simp
  then obtain r c where k: "k = r * len + c" and c: "0 \<le> c" "c < len"
    by (rule row_col)
  show ?thesis
    unfolding k plotAt_row_col [OF c] by (simp add: indexOf_def)
qed

lemma plotAt_indexOf:
  assumes "1 \<le> x" "x \<le> len"
  shows "plotAt len (indexOf len (x, y)) = (x, y)"
proof -
  define c where "c = (if odd y then x - 1 else len - x)"
  have c: "0 \<le> c" "c < len" using assms by (auto simp: c_def)
  have i: "indexOf len (x, y) = (y - 1) * len + c" by (simp add: indexOf_def c_def)
  show ?thesis
    unfolding i plotAt_row_col [OF c] by (simp add: c_def)
qed

lemma plotAt_in_field:
  assumes "2 \<le> len" "0 \<le> k" "k < len * width"
  shows "plotAt len k \<in> {1..len} \<times> {1..width}"
proof -
  from assms have "0 < len" by simp
  then obtain r c where k: "k = r * len + c" and c: "0 \<le> c" "c < len"
    by (rule row_col)
  have "0 \<le> r"
  proof (rule ccontr)
    assume "\<not> 0 \<le> r"
    then have "r + 1 \<le> 0" by simp
    then have "(r + 1) * len \<le> 0 * len"
      using \<open>0 < len\<close> by (intro mult_right_mono) simp_all
    moreover have "(r + 1) * len = r * len + len" by (simp add: algebra_simps)
    ultimately show False using c assms(2) unfolding k by linarith
  qed
  moreover have "r < width"
  proof (rule ccontr)
    assume "\<not> r < width"
    then have "width * len \<le> r * len"
      using \<open>0 < len\<close> by (intro mult_right_mono) simp_all
    moreover have "len * width = width * len" by (rule mult.commute)
    ultimately show False using c assms(3) unfolding k by linarith
  qed
  ultimately show ?thesis
    unfolding k plotAt_row_col [OF c] using c by auto
qed

lemma indexOf_bounds:
  assumes "1 \<le> x" "x \<le> len" "1 \<le> y" "y \<le> width"
  shows "0 \<le> indexOf len (x, y) \<and> indexOf len (x, y) < len * width"
proof -
  define c where "c = (if odd y then x - 1 else len - x)"
  have c: "0 \<le> c" "c < len" using assms by (auto simp: c_def)
  have i: "indexOf len (x, y) = (y - 1) * len + c" by (simp add: indexOf_def c_def)
  from assms have len: "0 \<le> len" by simp
  from assms len have "0 \<le> (y - 1) * len" by simp
  moreover from assms have "y * len \<le> width * len"
    using len by (intro mult_right_mono) simp_all
  then have "(y - 1) * len + len \<le> len * width"
    by (simp add: algebra_simps)
  ultimately show ?thesis using c unfolding i by simp
qed


lemma plotAfter_plotAt:
  assumes "2 \<le> sint len" "int k < sint len * sint (width::goInt)"
  shows "(sint (fst (plotAfter len k)), sint (snd (plotAfter len k))) = plotAt (sint len) (int k)"
  using assms(2)
proof (induction k)
  case 0
  from assms(1) show ?case by (simp add: plotAfter_def plotAt_def)
next
  case (Suc k)
  obtain x y where p: "plotAfter len k = (x, y)"
    by (cases "plotAfter len k")
  from Suc have here: "(sint x, sint y) = plotAt (sint len) (int k)"
    by (simp add: p)
  from Suc.prems have "int k < sint len * sint width" by simp
  from plotAt_in_field [OF assms(1) _ this] here
  have x: "1 \<le> sint x" "sint x \<le> sint len" by auto
  from Suc.prems have "int k + 1 < sint len * sint width" by simp
  from plotAt_in_field [OF assms(1) _ this]
  have "snd (plotAt (sint len) (int k + 1)) \<le> sint width" by auto
  with sint_bounds(2) [of width]
  have "snd (plotAt (sint len) (int k + 1)) \<le> 9223372036854775807" by simp
  then have safe: "snd (sweepStep (sint len) (sint x, sint y)) \<le> 9223372036854775807"
    by (simp only: here next_plotAt [OF assms(1)])
  obtain x1 y1 where n: "getNextPlotCoordinate len x y = (x1, y1)"
    by (cases "getNextPlotCoordinate len x y")
  from getNext_sint [OF x safe n]
  have "(sint x1, sint y1) = plotAt (sint len) (int k + 1)"
    by (simp only: here next_plotAt [OF assms(1)])
  moreover have "plotAfter len (Suc k) = (x1, y1)"
    by (simp add: plotAfter_def [of len "Suc k"] plotAfter_def [of len k, symmetric] p
          stepPlot_def n)
  ultimately show ?case by (simp add: add.commute)
qed

text \<open>
  In a field at least two plots long, the start and the first \<open>len * width - 1\<close> moves
  visit every plot of the field exactly once.
\<close>

lemma traversal_enumerates_wide_field:
  assumes "2 \<le>s len" "1 \<le>s width"
  shows "enumeratesField len width"
proof -
  from assms have len: "2 \<le> sint len" and width: "1 \<le> sint width"
    by (simp_all add: word_sle_eq)
  let ?n = "nat (sint len * sint width)"
  have at: "(sint (fst (plotAfter len k)), sint (snd (plotAfter len k))) = plotAt (sint len) (int k)"
    if "k < ?n" for k
    using that by (intro plotAfter_plotAt [OF len, where width = width])
      (simp add: zless_nat_eq_int_zless)
  have "inj_on (plotAfter len) {0..<?n}"
  proof (rule inj_onI)
    fix a b assume a: "a \<in> {0..<?n}" and b: "b \<in> {0..<?n}"
      and eq: "plotAfter len a = plotAfter len b"
    from a b at [of a] at [of b] eq have "plotAt (sint len) (int a) = plotAt (sint len) (int b)"
      by simp
    then have "indexOf (sint len) (plotAt (sint len) (int a))
        = indexOf (sint len) (plotAt (sint len) (int b))"
      by (rule arg_cong)
    then show "a = b" by (simp only: indexOf_plotAt [OF len] int_int_eq)
  qed
  then have d: "distinct (traversal len width)"
    by (simp add: traversal_def distinct_map)
  have "set (traversal len width) = {(x, y). 1 \<le>s x \<and> x \<le>s len \<and> 1 \<le>s y \<and> y \<le>s width}"
  proof (intro equalityI subsetI)
    fix p assume "p \<in> set (traversal len width)"
    then obtain k where k: "k < ?n" and p: "p = plotAfter len k"
      by (auto simp: traversal_def)
    from k have "int k < sint len * sint width" by (simp add: zless_nat_eq_int_zless)
    from plotAt_in_field [OF len _ this] at [OF k]
    show "p \<in> {(x, y). 1 \<le>s x \<and> x \<le>s len \<and> 1 \<le>s y \<and> y \<le>s width}"
      unfolding p by (auto simp: word_sle_eq case_prod_beta)
  next
    fix p assume "p \<in> {(x, y). 1 \<le>s x \<and> x \<le>s len \<and> 1 \<le>s y \<and> y \<le>s width}"
    then obtain x y where xy: "p = (x, y)"
      and f: "1 \<le> sint x" "sint x \<le> sint len" "1 \<le> sint y" "sint y \<le> sint width"
      by (auto simp: word_sle_eq)
    let ?k = "nat (indexOf (sint len) (sint x, sint y))"
    from indexOf_bounds [OF f]
    have b: "0 \<le> indexOf (sint len) (sint x, sint y)"
      "indexOf (sint len) (sint x, sint y) < sint len * sint width" by simp_all
    then have k: "?k < ?n" by simp
    have "plotAt (sint len) (int ?k) = (sint x, sint y)"
      using b(1) plotAt_indexOf [OF f(1,2), of "sint y"] by simp
    with at [OF k] have "sint (fst (plotAfter len ?k)) = sint x"
      "sint (snd (plotAfter len ?k)) = sint y" by simp_all
    then have "plotAfter len ?k = p"
      unfolding xy by (simp add: sint_eq_iff prod_eq_iff)
    with k show "p \<in> set (traversal len width)"
      by (auto simp: traversal_def)
  qed
  with d show ?thesis by (simp add: enumeratesField_def)
qed

lemma traversal_1_2: "traversal 1 2 = [(1, 1), (2, 1)]"
  by (simp add: traversal_def plotAfter_def stepPlot_def next_cases upt_rec numeral_2_eq_2)

lemma tree_1_2_ignored:
  "calculateFlyDistance 1 2 [generateTreeKey 1 2 \<mapsto> 5] = Some 12"
  by code_simp

lemma no_tree_1_2: "calculateFlyDistance 1 2 Map.empty = Some 12"
  by code_simp

text \<open>
  C1.  The claim is that for every \<open>len \<ge> 1\<close> and \<open>width \<ge> 1\<close> the start and the
  first \<open>len * width - 1\<close> moves visit every plot of the field exactly once.  In a field
  one plot long and two plots wide the code does otherwise: at \<open>(1, 1)\<close> the test
  \<open>x == 1\<close> comes before the test \<open>x == length\<close>, the move goes east to \<open>(2, 1)\<close>,
  outside the field, and the plot \<open>(1, 2)\<close> is never visited.  A tree of height 5 on that
  plot leaves the distance at 12, the distance of the field without trees, also when the
  field and the tree are read by \<open>Start\<close>.
\<close>

theorem traversal_leaves_single_column:
  "traversal 1 2 = [(1, 1), (2, 1)]
   \<and> \<not> enumeratesField 1 2
   \<and> calculateFlyDistance 1 2 [generateTreeKey 1 2 \<mapsto> 5] = Some 12
   \<and> calculateFlyDistance 1 2 Map.empty = Some 12
   \<and> Start (scanLines [(1, 2, 1), (1, 2, 5)])
       = Some \<lparr>stdout = [12], stderr = [], exitStatus = None, scans = 2\<rparr>"
proof -
  have run: "Start (scanLines [(1, 2, 1), (1, 2, 5)])
       = Some \<lparr>stdout = [12], stderr = [], exitStatus = None, scans = 2\<rparr>"
    by code_simp
  have "\<not> enumeratesField 1 2"
  proof
    assume "enumeratesField 1 2"
    then have "set (traversal 1 2)
        = {(x, y). (1::goInt) \<le>s x \<and> x \<le>s 1 \<and> (1::goInt) \<le>s y \<and> y \<le>s 2}"
      by (simp add: enumeratesField_def)
    moreover have "(2, 1) \<in> set (traversal 1 2)"
      by (simp add: traversal_1_2)
    ultimately have "(2, 1) \<in> {(x, y). (1::goInt) \<le>s x \<and> x \<le>s 1 \<and> (1::goInt) \<le>s y \<and> y \<le>s 2}"
      by (simp only:)
    then show False by (simp add: word_sle_eq)
  qed
  with traversal_1_2 tree_1_2_ignored no_tree_1_2 run show ?thesis by simp
qed

subsection \<open>Start and its input\<close>

lemma readTrees_result:
  assumes "readTrees scan count i n treeMap = (m, r)"
  shows "(r = None \<longrightarrow>
            n < m \<and> int m - int n \<le> sint count - sint i
          \<and> sint (snd (snd (scan (m - 1)))) \<notin> {1..30}
          \<and> (\<forall>k. n \<le> k \<and> k < m - 1 \<longrightarrow> sint (snd (snd (scan k))) \<in> {1..30}))
       \<and> (r \<noteq> None \<longrightarrow>
            (\<forall>k. n \<le> k \<and> int k < int n + (sint count - sint i)
                 \<longrightarrow> sint (snd (snd (scan k))) \<in> {1..30}))"
  using assms
proof (induction scan count i n treeMap rule: readTrees.induct)
  case (1 scan count i n treeMap)
  obtain x y height where t: "scan n = (x, y, height)"
    by (cases "scan n")
  show ?case
  proof (cases "i <s count")
    case False
    with "1.prems" show ?thesis
      by (auto simp: readTrees.simps [of scan count i] word_sless_alt)
  next
    case True
    then have less: "sint i < sint count" by (simp add: word_sless_alt)
    with sint_bounds(2) [of count] have i1: "sint (i + 1) = sint i + 1"
      by (intro sint_succ) simp
    show ?thesis
    proof (cases "height <s 1 \<or> 30 <s height")
      case bad: True
      with True t "1.prems" have "m = Suc n" "r = None"
        by (simp_all add: readTrees.simps [of scan count i])
      with less t bad show ?thesis by (auto simp: word_sless_alt)
    next
      case good: False
      with True t "1.prems"
      have rec: "readTrees scan count (i + 1) (Suc n) (treeMap(generateTreeKey x y \<mapsto> height))
          = (m, r)"
        by (simp add: readTrees.simps [of scan count i])
      from "1.IH" [OF True t [symmetric] refl good rec]
      have IH: "(r = None \<longrightarrow>
            Suc n < m \<and> int m - int (Suc n) \<le> sint count - (sint i + 1)
          \<and> sint (snd (snd (scan (m - 1)))) \<notin> {1..30}
          \<and> (\<forall>k. Suc n \<le> k \<and> k < m - 1 \<longrightarrow> sint (snd (snd (scan k))) \<in> {1..30}))
       \<and> (r \<noteq> None \<longrightarrow>
            (\<forall>k. Suc n \<le> k \<and> int k < int (Suc n) + (sint count - (sint i + 1))
                 \<longrightarrow> sint (snd (snd (scan k))) \<in> {1..30}))"
        unfolding i1 .
      have here: "sint (snd (snd (scan n))) \<in> {1..30}"
        using good t by (simp add: word_sless_alt)
      have step: "\<And>k. n \<le> k \<Longrightarrow> k = n \<or> Suc n \<le> k" by auto
      show ?thesis
      proof (intro conjI impI allI)
        assume "r = None"
        with IH show "n < m" by simp
      next
        assume "r = None"
        with IH show "int m - int n \<le> sint count - sint i" by simp
      next
        assume "r = None"
        with IH show "sint (snd (snd (scan (m - 1)))) \<notin> {1..30}" by simp
      next
        fix k assume "r = None" "n \<le> k \<and> k < m - 1"
        with IH here step [of k] show "sint (snd (snd (scan k))) \<in> {1..30}" by auto
      next
        fix k assume "r \<noteq> None" "n \<le> k \<and> int k < int n + (sint count - sint i)"
        with IH here step [of k] show "sint (snd (snd (scan k))) \<in> {1..30}" by auto
      qed
    qed
  qed
qed

text \<open>
  C5, as the code has it.  If the length, the width or the count is outside 1..50000, or
  one of the first \<open>count\<close> trees read has a height outside 1..30, then \<open>Start\<close> prints
  \<open>FAIL\<close> to standard error, calls \<open>osExit\<close> with status 1 and prints no distance.
  With bad dimensions it has read one line only; otherwise the last line it read is the
  first tree with a bad height.  The coordinates of a tree are not looked at.
\<close>

theorem Start_rejects_invalid_input:
  assumes first: "scan 0 = (len, width, count)"
    and bad: "sint len \<notin> {1..50000} \<or> sint width \<notin> {1..50000} \<or> sint count \<notin> {1..50000}
              \<or> (\<exists>k. 1 \<le> k \<and> int k \<le> sint count \<and> sint (snd (snd (scan k))) \<notin> {1..30})"
  shows "\<exists>n. Start scan
              = Some \<lparr>stdout = [], stderr = [''FAIL''], exitStatus = Some 1, scans = n\<rparr>
          \<and> (if sint len \<in> {1..50000} \<and> sint width \<in> {1..50000} \<and> sint count \<in> {1..50000}
              then 2 \<le> n \<and> int n \<le> sint count + 1
                 \<and> sint (snd (snd (scan (n - 1)))) \<notin> {1..30}
                 \<and> (\<forall>k. 1 \<le> k \<and> k < n - 1 \<longrightarrow> sint (snd (snd (scan k))) \<in> {1..30})
              else n = 1)"
proof (cases "validateInitialInputs len width count")
  case False
  then have "\<not> (sint len \<in> {1..50000} \<and> sint width \<in> {1..50000} \<and> sint count \<in> {1..50000})"
    by (auto simp: validateInitialInputs_def word_sle_eq)
  with False first show ?thesis
    by (simp add: Start_def throwFail_def)
next
  case True
  then have dims: "sint len \<in> {1..50000} \<and> sint width \<in> {1..50000} \<and> sint count \<in> {1..50000}"
    by (auto simp: validateInitialInputs_def word_sle_eq)
  with bad obtain k where k: "1 \<le> k" "int k \<le> sint count" "sint (snd (snd (scan k))) \<notin> {1..30}"
    by blast
  obtain m r where res: "readTrees scan count 0 1 Map.empty = (m, r)"
    by (cases "readTrees scan count 0 1 Map.empty")
  note rr = readTrees_result [OF res]
  have "r = None"
  proof (rule ccontr)
    assume "r \<noteq> None"
    with rr k show False by auto
  qed
  with rr have m: "1 < m" "int m - 1 \<le> sint count" "sint (snd (snd (scan (m - 1)))) \<notin> {1..30}"
    "\<forall>k. 1 \<le> k \<and> k < m - 1 \<longrightarrow> sint (snd (snd (scan k))) \<in> {1..30}"
    by simp_all
  have "Start scan = Some \<lparr>stdout = [], stderr = [''FAIL''], exitStatus = Some 1, scans = m\<rparr>"
    using first True res \<open>r = None\<close> by (simp add: Start_def throwFail_def)
  with m dims show ?thesis by auto
qed

theorem Start_rejects_invalid_input_witness:
  "scanLines [(1, 2, 3), (1, 2, 30), (1, 1, 0), (1, 2, 3)] 0 = (1, 2, 3)
   \<and> sint (snd (snd (scanLines [(1, 2, 3), (1, 2, 30), (1, 1, 0), (1, 2, 3)] 2))) \<notin> {1..30}
   \<and> (\<exists>n. Start (scanLines [(1, 2, 3), (1, 2, 30), (1, 1, 0), (1, 2, 3)])
          = Some \<lparr>stdout = [], stderr = [''FAIL''], exitStatus = Some 1, scans = n\<rparr>
        \<and> 2 \<le> n \<and> int n \<le> 3 + 1)"
proof -
  let ?scan = "scanLines [(1, 2, 3), (1, 2, 30), (1, 1, 0), (1, 2, 3)]"
  have first: "?scan 0 = (1, 2, 3)"
    by (simp add: scanLines_def)
  have h: "sint (snd (snd (?scan 2))) \<notin> {1..30}"
    by (simp add: scanLines_def)
  then have "\<exists>k. 1 \<le> k \<and> int k \<le> sint (3::goInt) \<and> sint (snd (snd (?scan k))) \<notin> {1..30}"
    by (intro exI [of _ 2]) simp
  then have bad: "sint (1::goInt) \<notin> {1..50000} \<or> sint (2::goInt) \<notin> {1..50000}
              \<or> sint (3::goInt) \<notin> {1..50000}
              \<or> (\<exists>k. 1 \<le> k \<and> int k \<le> sint (3::goInt) \<and> sint (snd (snd (?scan k))) \<notin> {1..30})"
    by blast
  from Start_rejects_invalid_input [OF first bad] first h show ?thesis by auto
qed

text \<open>
  C5, as stated, fails on a tree outside the field: in a field of length 1 and width 2, the
  tree \<open>(5, 2, 2)\<close> has \<open>x = 5\<close>, and \<open>Start\<close> prints the distance 12 and does not
  fail.  This is the input of the test "given success then expect no error and panic".
\<close>

theorem Start_accepts_tree_outside_field:
  "(5::int) \<notin> {1..1}
   \<and> Start (scanLines [(1, 2, 1), (5, 2, 2)])
       = Some \<lparr>stdout = [12], stderr = [], exitStatus = None, scans = 2\<rparr>"
proof -
  have "Start (scanLines [(1, 2, 1), (5, 2, 2)])
       = Some \<lparr>stdout = [12], stderr = [], exitStatus = None, scans = 2\<rparr>"
    by code_simp
  then show ?thesis by simp
qed

end
